theory Spec2Isabelle
  imports Main "HOL-Library.Word"
begin

unbundle bit_operations_syntax

section \<open>JavaScript values used by the image processor\<close>

text \<open>
  The processor of \<^verbatim>\<open>worker/src/services/imageProcessor.ts\<close> reads a
  \<^verbatim>\<open>Uint8Array\<close>. An element read \<^verbatim>\<open>bytes[k]\<close> is a byte when
  \<open>0 \<le> k < bytes.length\<close> and \<^verbatim>\<open>undefined\<close> otherwise (also for a negative
  \<open>k\<close>); it never throws. \<open>None\<close> stands for \<^verbatim>\<open>undefined\<close>.
\<close>

type_synonym byte = "8 word"
type_synonym int32 = "32 word"

definition index :: "byte list \<Rightarrow> int \<Rightarrow> byte option" where
  "index bytes k = (if 0 \<le> k \<and> k < int (length bytes) then Some (bytes ! nat k) else None)"

text \<open>
  The bitwise operators \<^verbatim>\<open><<\<close>, \<^verbatim>\<open>>>\<close>, \<^verbatim>\<open>|\<close> and \<^verbatim>\<open>&\<close> convert their
  operands with ToInt32 (\<^verbatim>\<open>undefined\<close> becomes 0) and compute on 32-bit two's
  complement integers; the result is read back as a signed number (\<open>sint\<close>).
\<close>

definition toInt32 :: "byte option \<Rightarrow> int32" where
  "toInt32 v = (case v of None \<Rightarrow> 0 | Some b \<Rightarrow> ucast b)"

text \<open>
  ToInt32 on a number \<open>u\<close> with \<open>0 \<le> u < 2^32\<close>: the signed number that a 32-bit
  operation of JavaScript yields when its bits, read unsigned, are \<open>u\<close>.
\<close>

definition wrapInt32 :: "int \<Rightarrow> int" where
  "wrapInt32 u = (if u < 2147483648 then u else u - 4294967296)"

text \<open>
  \<^verbatim>\<open>String.fromCharCode\<close> converts each argument with ToUint16 (\<^verbatim>\<open>undefined\<close>
  becomes the character with code 0).
\<close>

definition charCode :: "byte option \<Rightarrow> char" where
  "charCode v = (case v of None \<Rightarrow> char_of (0::nat) | Some b \<Rightarrow> char_of (unat b))"

definition fromCharCode :: "byte option list \<Rightarrow> string" where
  "fromCharCode vs = map charCode vs"

section \<open>Format detection\<close>

text \<open>The conditions of the five signature checks of \<^verbatim>\<open>detectFormat\<close>, in source order.\<close>

definition sigJpeg :: "byte list \<Rightarrow> bool" where
  "sigJpeg bytes \<longleftrightarrow>
     index bytes 0 = Some 0xFF \<and> index bytes 1 = Some 0xD8 \<and> index bytes 2 = Some 0xFF"

definition sigPng :: "byte list \<Rightarrow> bool" where
  "sigPng bytes \<longleftrightarrow>
     index bytes 0 = Some 0x89 \<and> index bytes 1 = Some 0x50 \<and> index bytes 2 = Some 0x4E \<and>
     index bytes 3 = Some 0x47"

definition sigGif :: "byte list \<Rightarrow> bool" where
  "sigGif bytes \<longleftrightarrow>
     index bytes 0 = Some 0x47 \<and> index bytes 1 = Some 0x49 \<and> index bytes 2 = Some 0x46 \<and>
     index bytes 3 = Some 0x38"

definition sigWebp :: "byte list \<Rightarrow> bool" where
  "sigWebp bytes \<longleftrightarrow>
     index bytes 0 = Some 0x52 \<and> index bytes 1 = Some 0x49 \<and> index bytes 2 = Some 0x46 \<and>
     index bytes 3 = Some 0x46 \<and>
     index bytes 8 = Some 0x57 \<and> index bytes 9 = Some 0x45 \<and> index bytes 10 = Some 0x42 \<and>
     index bytes 11 = Some 0x50"

definition sigAvif :: "byte list \<Rightarrow> bool" where
  "sigAvif bytes \<longleftrightarrow>
     index bytes 4 = Some 0x66 \<and> index bytes 5 = Some 0x74 \<and> index bytes 6 = Some 0x79 \<and>
     index bytes 7 = Some 0x70 \<and>
     (let brand = fromCharCode [index bytes 8, index bytes 9, index bytes 10, index bytes 11]
      in brand = ''avif'' \<or> brand = ''avis'')"

definition detectFormat :: "byte list \<Rightarrow> string" where
  "detectFormat data =
     (let bytes = take 12 data in
      if sigJpeg bytes then ''jpeg''
      else if sigPng bytes then ''png''
      else if sigGif bytes then ''gif''
      else if sigWebp bytes then ''webp''
      else if sigAvif bytes then ''avif''
      else ''unknown'')"

section \<open>Dimension readers\<close>

record dims =
  width :: int
  height :: int

definition fallback :: dims where
  "fallback = \<lparr> width = 1920, height = 1080 \<rparr>"

definition getPngDimensions :: "byte list \<Rightarrow> dims" where
  "getPngDimensions bytes =
     (let width = sint (push_bit 24 (toInt32 (index bytes 16)) OR push_bit 16 (toInt32 (index bytes 17))
                        OR push_bit 8 (toInt32 (index bytes 18)) OR toInt32 (index bytes 19));
          height = sint (push_bit 24 (toInt32 (index bytes 20)) OR push_bit 16 (toInt32 (index bytes 21))
                        OR push_bit 8 (toInt32 (index bytes 22)) OR toInt32 (index bytes 23))
      in \<lparr> width = width, height = height \<rparr>)"

text \<open>
  The start-of-frame test of the JPEG scan. A comparison \<^verbatim>\<open>>=\<close> or \<^verbatim>\<open><=\<close> with
  \<^verbatim>\<open>undefined\<close> is false.
\<close>

definition isSof :: "byte option \<Rightarrow> bool" where
  "isSof marker =
     (case marker of None \<Rightarrow> False
      | Some m \<Rightarrow> 0xC0 \<le> m \<and> m \<le> 0xCF \<and> m \<noteq> 0xC4 \<and> m \<noteq> 0xC8 \<and> m \<noteq> 0xCC)"

text \<open>
  The \<^verbatim>\<open>while\<close> loop of \<^verbatim>\<open>getJpegDimensions\<close>, with the cursor \<open>i\<close> as its
  state. \<open>None\<close> would mean that the loop never returns.
\<close>

partial_function (option) jpegScan :: "byte list \<Rightarrow> int \<Rightarrow> dims option" where
  "jpegScan bytes i =
     (if i < int (length bytes) then
        (if index bytes i \<noteq> Some 0xFF then jpegScan bytes (i + 1)
         else
           (let marker = index bytes (i + 1) in
            if isSof marker then
              (let height = sint (push_bit 8 (toInt32 (index bytes (i + 5))) OR toInt32 (index bytes (i + 6)));
                   width = sint (push_bit 8 (toInt32 (index bytes (i + 7))) OR toInt32 (index bytes (i + 8)))
               in Some \<lparr> width = width, height = height \<rparr>)
            else
              (let length = sint (push_bit 8 (toInt32 (index bytes (i + 2))) OR toInt32 (index bytes (i + 3)))
               in jpegScan bytes (i + (2 + length)))))
      else Some fallback)"

definition getJpegDimensions :: "byte list \<Rightarrow> dims option" where
  "getJpegDimensions bytes = jpegScan bytes 2"

definition getGifDimensions :: "byte list \<Rightarrow> dims" where
  "getGifDimensions bytes =
     (let width = sint (toInt32 (index bytes 6) OR push_bit 8 (toInt32 (index bytes 7)));
          height = sint (toInt32 (index bytes 8) OR push_bit 8 (toInt32 (index bytes 9)))
      in \<lparr> width = width, height = height \<rparr>)"

definition getWebpDimensions :: "byte list \<Rightarrow> dims" where
  "getWebpDimensions bytes =
     (if index bytes 12 = Some 0x56 \<and> index bytes 13 = Some 0x50 \<and> index bytes 14 = Some 0x38 \<and>
         index bytes 15 = Some 0x58 then
        (let width = sint (toInt32 (index bytes 24) OR push_bit 8 (toInt32 (index bytes 25))
                           OR push_bit 16 (toInt32 (index bytes 26))) + 1;
             height = sint (toInt32 (index bytes 27) OR push_bit 8 (toInt32 (index bytes 28))
                           OR push_bit 16 (toInt32 (index bytes 29))) + 1
         in \<lparr> width = width, height = height \<rparr>)
      else if index bytes 12 = Some 0x56 \<and> index bytes 13 = Some 0x50 \<and> index bytes 14 = Some 0x38 \<and>
         index bytes 15 = Some 0x4C then
        (let b0 = index bytes 21; b1 = index bytes 22; b2 = index bytes 23; b3 = index bytes 24;
             width = sint ((toInt32 b0 OR push_bit 8 (toInt32 b1)) AND 0x3FFF) + 1;
             height = sint ((signed_drop_bit 6 (toInt32 b1) OR push_bit 2 (toInt32 b2)
                             OR push_bit 10 (toInt32 b3)) AND 0x3FFF) + 1
         in \<lparr> width = width, height = height \<rparr>)
      else if index bytes 12 = Some 0x56 \<and> index bytes 13 = Some 0x50 \<and> index bytes 14 = Some 0x38 \<and>
         index bytes 15 = Some 0x20 then
        (let width = sint ((toInt32 (index bytes 26) OR push_bit 8 (toInt32 (index bytes 27))) AND 0x3FFF);
             height = sint ((toInt32 (index bytes 28) OR push_bit 8 (toInt32 (index bytes 29))) AND 0x3FFF)
         in \<lparr> width = width, height = height \<rparr>)
      else fallback)"

text \<open>
  The \<^verbatim>\<open>while\<close> loop of \<^verbatim>\<open>getAvifDimensions\<close>, with the cursor \<open>offset\<close> as
  its state. The box size is a signed 32-bit number, so the cursor is an integer that can
  move backwards; \<open>None\<close> means that the loop never returns.
\<close>

partial_function (option) avifWalk :: "byte list \<Rightarrow> int \<Rightarrow> dims option" where
  "avifWalk bytes offset =
     (if offset < int (length bytes) - 8 then
        (let boxSize = sint (push_bit 24 (toInt32 (index bytes offset))
                             OR push_bit 16 (toInt32 (index bytes (offset + 1)))
                             OR push_bit 8 (toInt32 (index bytes (offset + 2)))
                             OR toInt32 (index bytes (offset + 3)));
             boxType = fromCharCode [index bytes (offset + 4), index bytes (offset + 5),
                                      index bytes (offset + 6), index bytes (offset + 7)]
         in
           if boxSize = 0 then Some fallback
           else if boxType = ''ispe'' then
             (let width = sint (push_bit 24 (toInt32 (index bytes (offset + 12)))
                                OR push_bit 16 (toInt32 (index bytes (offset + 13)))
                                OR push_bit 8 (toInt32 (index bytes (offset + 14)))
                                OR toInt32 (index bytes (offset + 15)));
                  height = sint (push_bit 24 (toInt32 (index bytes (offset + 16)))
                                 OR push_bit 16 (toInt32 (index bytes (offset + 17)))
                                 OR push_bit 8 (toInt32 (index bytes (offset + 18)))
                                 OR toInt32 (index bytes (offset + 19)))
              in Some \<lparr> width = width, height = height \<rparr>)
           else if boxType \<in> set [''meta'', ''iprp'', ''ipco''] then
             avifWalk bytes (offset + (if boxType = ''meta'' then 12 else 8))
           else avifWalk bytes (offset + boxSize))
      else Some fallback)"

definition getAvifDimensions :: "byte list \<Rightarrow> dims option" where
  "getAvifDimensions bytes = avifWalk bytes 0"

text \<open>
  \<^verbatim>\<open>getImageDimensions\<close>: the \<^verbatim>\<open>switch\<close> on the detected format. The result is
  \<open>None\<close> when the dispatched reader never returns.
\<close>

definition getImageDimensions :: "byte list \<Rightarrow> dims option" where
  "getImageDimensions data =
     (let bytes = data; format = detectFormat data in
      if format = ''png'' then Some (getPngDimensions bytes)
      else if format = ''jpeg'' then getJpegDimensions bytes
      else if format = ''gif'' then Some (getGifDimensions bytes)
      else if format = ''webp'' then Some (getWebpDimensions bytes)
      else if format = ''avif'' then getAvifDimensions bytes
      else Some \<lparr> width = 1920, height = 1080 \<rparr>)"

section \<open>Metadata assembly\<close>

datatype orientation = landscape | portrait

record ImageInfo = dims +
  format :: string
  orientation :: orientation

definition detectOrientation :: "int \<Rightarrow> int \<Rightarrow> orientation" where
  "detectOrientation w h = (if w \<ge> h then landscape else portrait)"

definition getImageInfo :: "byte list \<Rightarrow> ImageInfo option" where
  "getImageInfo data =
     (let format = detectFormat data in
      case getImageDimensions data of
        None \<Rightarrow> None
      | Some d \<Rightarrow>
          Some \<lparr> width = width d, height = height d, format = format,
                 orientation = detectOrientation (width d) (height d) \<rparr>)"

text \<open>
  \<^verbatim>\<open>getExtension\<close> indexes an object literal with the key \<^verbatim>\<open>format\<close>. The literal
  has six properties of its own and inherits the properties of \<^verbatim>\<open>Object.prototype\<close>,
  so a read yields the own string, or else the inherited member when the key names one (a
  function, or for \<^verbatim>\<open>__proto__\<close> the prototype object), or else \<^verbatim>\<open>undefined\<close>.
  \<open>Str\<close> is a string value, \<open>Inherited k\<close> the member of \<^verbatim>\<open>Object.prototype\<close>
  named \<open>k\<close>; \<open>None\<close> is \<^verbatim>\<open>undefined\<close>. \<open>objectPrototypeKeys\<close> lists the
  property names of \<^verbatim>\<open>Object.prototype\<close> in ECMAScript.
\<close>

datatype jsval = Str string | Inherited string

definition objectPrototypeKeys :: "string list" where
  "objectPrototypeKeys =
     [''constructor'', ''hasOwnProperty'', ''isPrototypeOf'', ''propertyIsEnumerable'',
      ''toLocaleString'', ''toString'', ''valueOf'', ''__proto__'', ''__defineGetter__'',
      ''__defineSetter__'', ''__lookupGetter__'', ''__lookupSetter__'']"

definition extensions :: "string \<rightharpoonup> jsval" where
  "extensions key =
     (case map_of [(''jpeg'', ''jpg''), (''jpg'', ''jpg''), (''png'', ''png''),
                   (''gif'', ''gif''), (''webp'', ''webp''), (''avif'', ''avif'')] key of
        Some e \<Rightarrow> Some (Str e)
      | None \<Rightarrow> if key \<in> set objectPrototypeKeys then Some (Inherited key) else None)"

text \<open>
  \<^verbatim>\<open>extensions[format] || format\<close>: the left operand when it is truthy (a non-empty
  string, or any function or object), else \<^verbatim>\<open>format\<close>.
\<close>

definition truthy :: "jsval \<Rightarrow> bool" where
  "truthy v = (case v of Str s \<Rightarrow> s \<noteq> [] | Inherited _ \<Rightarrow> True)"

definition getExtension :: "string \<Rightarrow> jsval" where
  "getExtension fmt =
     (case extensions fmt of
        None \<Rightarrow> Str fmt
      | Some v \<Rightarrow> if truthy v then v else Str fmt)"

declare jpegScan.simps [code]
declare avifWalk.simps [code]

section \<open>Definitions that follow the wording of the specification\<close>

text \<open>
  \<open>bytesFromTo bytes i j\<close> is the specification's \<^verbatim>\<open>bytes[i..j]\<close>, the bytes at the
  offsets \<open>i\<close> to \<open>j\<close> that the buffer has; \<open>ascii\<close> gives the bytes of a tag
  written as text. \<open>detectFormat_spec\<close> is the ordered rule list of the specification.
\<close>

definition bytesFromTo :: "byte list \<Rightarrow> nat \<Rightarrow> nat \<Rightarrow> byte list" where
  "bytesFromTo bytes i j = take (Suc j - i) (drop i bytes)"

definition ascii :: "string \<Rightarrow> byte list" where
  "ascii s = map (\<lambda>c. of_nat (of_char c)) s"

definition detectFormat_spec :: "byte list \<Rightarrow> string" where
  "detectFormat_spec bytes =
     (if bytesFromTo bytes 0 2 = [0xFF, 0xD8, 0xFF] then ''jpeg''
      else if bytesFromTo bytes 0 3 = [0x89, 0x50, 0x4E, 0x47] then ''png''
      else if bytesFromTo bytes 0 3 = [0x47, 0x49, 0x46, 0x38] then ''gif''
      else if bytesFromTo bytes 0 3 = ascii ''RIFF'' \<and> bytesFromTo bytes 8 11 = ascii ''WEBP''
        then ''webp''
      else if bytesFromTo bytes 4 7 = ascii ''ftyp'' \<and>
              (bytesFromTo bytes 8 11 = ascii ''avif'' \<or> bytesFromTo bytes 8 11 = ascii ''avis'')
        then ''avif''
      else ''unknown'')"

text \<open>
  The specification reads a byte beyond the end of the buffer as the value 0.
  \<open>byteVal\<close> is the number a read stands for, \<open>byteOr0 bytes k\<close> the number read at
  offset \<open>k\<close>. The multi-byte readers are written with sums and products, not with
  bit operations: big-endian and little-endian 16-bit, little-endian 24-bit, and unsigned
  big-endian 32-bit (\<open>be32u\<close>).
\<close>

definition byteVal :: "byte option \<Rightarrow> int" where
  "byteVal v = (case v of None \<Rightarrow> 0 | Some b \<Rightarrow> uint b)"

definition byteOr0 :: "byte list \<Rightarrow> int \<Rightarrow> int" where
  "byteOr0 bytes k = byteVal (index bytes k)"

definition be16 :: "byte list \<Rightarrow> int \<Rightarrow> int" where
  "be16 bytes k = 256 * byteOr0 bytes k + byteOr0 bytes (k + 1)"

definition le16 :: "byte list \<Rightarrow> int \<Rightarrow> int" where
  "le16 bytes k = byteOr0 bytes k + 256 * byteOr0 bytes (k + 1)"

definition le24 :: "byte list \<Rightarrow> int \<Rightarrow> int" where
  "le24 bytes k = byteOr0 bytes k + 256 * byteOr0 bytes (k + 1) + 65536 * byteOr0 bytes (k + 2)"

definition be32u :: "byte list \<Rightarrow> int \<Rightarrow> int" where
  "be32u bytes k = 16777216 * byteOr0 bytes k + 65536 * byteOr0 bytes (k + 1) +
     256 * byteOr0 bytes (k + 2) + byteOr0 bytes (k + 3)"

text \<open>
  The start-of-frame markers of the specification: a value in \<open>[0xC0, 0xCF]\<close> other than
  \<open>0xC4\<close>, \<open>0xC8\<close> and \<open>0xCC\<close>. A buffer has a start-of-frame marker when some
  offset from 2 on holds \<open>0xFF\<close> followed by such a value.
\<close>

definition isSofValue :: "int \<Rightarrow> bool" where
  "isSofValue m \<longleftrightarrow> 0xC0 \<le> m \<and> m \<le> 0xCF \<and> m \<noteq> 0xC4 \<and> m \<noteq> 0xC8 \<and> m \<noteq> 0xCC"

definition hasSofMarker :: "byte list \<Rightarrow> bool" where
  "hasSofMarker bytes =
     list_ex (\<lambda>j. byteOr0 bytes (int j) = 0xFF \<and> isSofValue (byteOr0 bytes (int j + 1)))
       [2..<length bytes]"

text \<open>
  The scan of the specification as a total function: from offset \<open>i\<close>, skip a byte that
  is not \<open>0xFF\<close>; at \<open>0xFF\<close> followed by a start-of-frame marker return the height
  read at \<open>i + 5\<close> and the width read at \<open>i + 7\<close>; otherwise skip 2 bytes plus the
  segment length read at \<open>i + 2\<close>; past the end return the fallback. Every step moves
  the cursor forward, so the recursion terminates.
\<close>

function jpegScan_spec :: "byte list \<Rightarrow> int \<Rightarrow> dims" where
  "jpegScan_spec bytes i =
     (if i < int (length bytes) then
        (if byteOr0 bytes i \<noteq> 0xFF then jpegScan_spec bytes (i + 1)
         else if isSofValue (byteOr0 bytes (i + 1)) then
           \<lparr> width = be16 bytes (i + 7), height = be16 bytes (i + 5) \<rparr>
         else jpegScan_spec bytes (i + (2 + be16 bytes (i + 2))))
      else fallback)"
  by pat_completeness auto

termination
proof (relation "measure (\<lambda>(bytes, i). nat (int (length bytes) - i))")
  show "wf (measure (\<lambda>(bytes, i). nat (int (length bytes) - i)))" by simp
next
  fix bytes :: "byte list" and i :: int
  assume "i < int (length bytes)"
  then show "((bytes, i + 1), (bytes, i)) \<in> measure (\<lambda>(bytes, i). nat (int (length bytes) - i))"
    by simp
next
  fix bytes :: "byte list" and i :: int
  assume "i < int (length bytes)"
  moreover have "0 \<le> be16 bytes (i + 2)"
    by (simp add: be16_def byteOr0_def byteVal_def split: option.splits)
  ultimately show "((bytes, i + (2 + be16 bytes (i + 2))), (bytes, i)) \<in> measure (\<lambda>(bytes, i). nat (int (length bytes) - i))"
    by simp
qed

declare jpegScan_spec.simps [simp del]

text \<open>
  The four bytes of a tag at an offset, as numbers, and the character codes of a tag written
  as text.
\<close>

definition tagAt :: "byte list \<Rightarrow> int \<Rightarrow> int list" where
  "tagAt bytes k = [byteOr0 bytes k, byteOr0 bytes (k + 1), byteOr0 bytes (k + 2), byteOr0 bytes (k + 3)]"

definition asciiCodes :: "string \<Rightarrow> int list" where
  "asciiCodes s = map (\<lambda>c. int (of_char c)) s"

text \<open>
  The WebP reader as the specification words it: dispatch on the chunk tag at offset 12,
  with the VP8L fields computed by bit operations on unbounded integers.
\<close>

definition getWebpDimensions_spec :: "byte list \<Rightarrow> dims" where
  "getWebpDimensions_spec bytes =
     (let tag = tagAt bytes 12 in
      if tag = asciiCodes ''VP8X'' then
        \<lparr> width = le24 bytes 24 + 1, height = le24 bytes 27 + 1 \<rparr>
      else if tag = asciiCodes ''VP8L'' then
        (let b0 = byteOr0 bytes 21; b1 = byteOr0 bytes 22; b2 = byteOr0 bytes 23; b3 = byteOr0 bytes 24
         in \<lparr> width = ((b0 OR push_bit 8 b1) AND 0x3FFF) + 1,
              height = ((drop_bit 6 b1 OR push_bit 2 b2 OR push_bit 10 b3) AND 0x3FFF) + 1 \<rparr>)
      else if tag = asciiCodes ''VP8 '' then
        \<lparr> width = le16 bytes 26 AND 0x3FFF, height = le16 bytes 28 AND 0x3FFF \<rparr>
      else fallback)"

section \<open>Inputs used below\<close>

text \<open>
  A 25-byte buffer with the AVIF signature: an \<open>ftyp\<close> box of size 16 at offset 0 and,
  at offset 16, a box of type \<open>free\<close> whose size field is FF FF FF F0.
\<close>

definition avifLoop :: "byte list" where
  "avifLoop = [0x00, 0x00, 0x00, 0x10, 0x66, 0x74, 0x79, 0x70, 0x61, 0x76, 0x69, 0x66, 0x00, 0x00, 0x00, 0x00,
      0xFF, 0xFF, 0xFF, 0xF0, 0x66, 0x72, 0x65, 0x65, 0x00]"

section \<open>Reads and signatures\<close>

lemma charCode_eq_iff: 
  assumes "of_char c \<noteq> (0::nat)"
  shows "charCode v = c \<longleftrightarrow> v = Some (of_nat (of_char c))"
proof (cases v)
  case None
  then show ?thesis using assms by (simp add: charCode_def char_of_eq_iff)
next
  case (Some b)
  have tb: "take_bit 8 (unat b) = unat b" 
    using unsigned_less[of b, where ?'a = nat] by (simp add: take_bit_nat_eq_self_iff)
  have lt: "(of_char c :: nat) < 256"
    by (metis of_char_mod_256 mod_less_divisor zero_less_numeral)
  have "unat b = of_char c \<longleftrightarrow> b = of_nat (of_char c)"
  proof
    assume "unat b = of_char c"
    then show "b = of_nat (of_char c)" by (metis of_nat_unat ucast_id)
  next
    assume "b = of_nat (of_char c)"
    then show "unat b = of_char c" using lt by (simp add: unat_of_nat)
  qed
  then show ?thesis using Some by (simp add: charCode_def char_of_eq_iff tb)
qed

lemma less4_cases: "i < 4 \<longleftrightarrow> i = 0 \<or> i = 1 \<or> i = 2 \<or> i = (3::nat)"
  by arith

lemma less3_cases: "i < 3 \<longleftrightarrow> i = 0 \<or> i = 1 \<or> i = (2::nat)"
  by arith

lemma take_drop_eq_iff:
  "take n (drop k xs) = ys \<longleftrightarrow>
     length ys = min n (length xs - k) \<and> (\<forall>i<length ys. xs ! (k + i) = ys ! i)"
proof -
  have "take n (drop k xs) = ys \<longleftrightarrow>
     length (take n (drop k xs)) = length ys \<and> (\<forall>i<length ys. take n (drop k xs) ! i = ys ! i)"
    by (metis list_eq_iff_nth_eq)
  also have "\<dots> \<longleftrightarrow> length ys = min n (length xs - k) \<and> (\<forall>i<length ys. xs ! (k + i) = ys ! i)"
    by (rule conj_cong) auto
  finally show ?thesis .
qed

lemma take_drop_eq4:
  "take 4 (drop k xs) = [a, b, c, d] \<longleftrightarrow>
     k + 3 < length xs \<and> xs ! k = a \<and> xs ! (k + 1) = b \<and> xs ! (k + 2) = c \<and> xs ! (k + 3) = d"
proof -
  have L: "length [a, b, c, d] = 4" by simp
  have A: "(\<forall>i<length [a, b, c, d]. xs ! (k + i) = [a, b, c, d] ! i) \<longleftrightarrow>
        xs ! k = a \<and> xs ! (k + 1) = b \<and> xs ! (k + 2) = c \<and> xs ! (k + 3) = d"
    unfolding L less4_cases by auto
  have B: "length [a, b, c, d] = min 4 (length xs - k) \<longleftrightarrow> k + 3 < length xs" 
    unfolding L by arith
  show ?thesis unfolding take_drop_eq_iff A B ..
qed

lemma take_drop_eq3:
  "take 3 (drop k xs) = [a, b, c] \<longleftrightarrow>
     k + 2 < length xs \<and> xs ! k = a \<and> xs ! (k + 1) = b \<and> xs ! (k + 2) = c"
proof -
  have L: "length [a, b, c] = 3" by simp
  have A: "(\<forall>i<length [a, b, c]. xs ! (k + i) = [a, b, c] ! i) \<longleftrightarrow>
        xs ! k = a \<and> xs ! (k + 1) = b \<and> xs ! (k + 2) = c"
    unfolding L less3_cases by auto
  have B: "length [a, b, c] = min 3 (length xs - k) \<longleftrightarrow> k + 2 < length xs" 
    unfolding L by arith
  show ?thesis unfolding take_drop_eq_iff A B ..
qed

lemma index_Some_iff:
  "index bytes k = Some v \<longleftrightarrow> 0 \<le> k \<and> nat k < length bytes \<and> bytes ! nat k = v"
  by (auto simp: index_def)

lemma index_take12: "k < 12 \<Longrightarrow> index (take 12 data) k = index data k"
  by (auto simp: index_def)

lemma sig_take12:
  "sigJpeg (take 12 data) = sigJpeg data" "sigPng (take 12 data) = sigPng data"
  "sigGif (take 12 data) = sigGif data" "sigWebp (take 12 data) = sigWebp data"
  "sigAvif (take 12 data) = sigAvif data"
  by (simp_all add: sigJpeg_def sigPng_def sigGif_def sigWebp_def sigAvif_def index_take12)

lemma index_int: "index bytes (int k + int j) = Some v \<longleftrightarrow> k + j < length bytes \<and> bytes ! (k + j) = v"
proof -
  have "nat (int k + int j) = k + j" by simp
  then show ?thesis unfolding index_def by auto
qed

lemma bytesFromTo3:
  assumes "j = k + 2"
  shows "bytesFromTo bytes k j = [a, b, c] \<longleftrightarrow>
     index bytes (int k) = Some a \<and> index bytes (int k + 1) = Some b \<and> index bytes (int k + 2) = Some c"
proof -
  have e: "bytesFromTo bytes k j = take 3 (drop k bytes)"
    using assms by (simp add: bytesFromTo_def)
  have i0: "index bytes (int k) = Some a \<longleftrightarrow> k + 0 < length bytes \<and> bytes ! k = a"
    using index_int [of bytes k 0 a] by simp
  have i1: "index bytes (int k + 1) = Some b \<longleftrightarrow> k + 1 < length bytes \<and> bytes ! (k + 1) = b"
    using index_int [of bytes k 1 b] by simp
  have i2: "index bytes (int k + 2) = Some c \<longleftrightarrow> k + 2 < length bytes \<and> bytes ! (k + 2) = c"
    using index_int [of bytes k 2 c] by simp
  show ?thesis unfolding e take_drop_eq3 i0 i1 i2 by auto
qed

lemma bytesFromTo4:
  assumes "j = k + 3"
  shows "bytesFromTo bytes k j = [a, b, c, d] \<longleftrightarrow>
     index bytes (int k) = Some a \<and> index bytes (int k + 1) = Some b \<and>
     index bytes (int k + 2) = Some c \<and> index bytes (int k + 3) = Some d"
proof -
  have e: "bytesFromTo bytes k j = take 4 (drop k bytes)"
    using assms by (simp add: bytesFromTo_def)
  have i0: "index bytes (int k) = Some a \<longleftrightarrow> k + 0 < length bytes \<and> bytes ! k = a"
    using index_int [of bytes k 0 a] by simp
  have i1: "index bytes (int k + 1) = Some b \<longleftrightarrow> k + 1 < length bytes \<and> bytes ! (k + 1) = b"
    using index_int [of bytes k 1 b] by simp
  have i2: "index bytes (int k + 2) = Some c \<longleftrightarrow> k + 2 < length bytes \<and> bytes ! (k + 2) = c"
    using index_int [of bytes k 2 c] by simp
  have i3: "index bytes (int k + 3) = Some d \<longleftrightarrow> k + 3 < length bytes \<and> bytes ! (k + 3) = d"
    using index_int [of bytes k 3 d] by simp
  show ?thesis unfolding e take_drop_eq4 i0 i1 i2 i3 by auto
qed

lemma sigJpeg_iff: "sigJpeg bytes \<longleftrightarrow> bytesFromTo bytes 0 2 = [0xFF, 0xD8, 0xFF]"
  using bytesFromTo3 [where k = 0 and j = 2 and bytes = bytes] by (simp add: sigJpeg_def)

lemma sigPng_iff: "sigPng bytes \<longleftrightarrow> bytesFromTo bytes 0 3 = [0x89, 0x50, 0x4E, 0x47]"
  using bytesFromTo4 [where k = 0 and j = 3 and bytes = bytes] by (simp add: sigPng_def)

lemma sigGif_iff: "sigGif bytes \<longleftrightarrow> bytesFromTo bytes 0 3 = [0x47, 0x49, 0x46, 0x38]"
  using bytesFromTo4 [where k = 0 and j = 3 and bytes = bytes] by (simp add: sigGif_def)

lemma sigWebp_iff:
  "sigWebp bytes \<longleftrightarrow> bytesFromTo bytes 0 3 = ascii ''RIFF'' \<and> bytesFromTo bytes 8 11 = ascii ''WEBP''"
  using bytesFromTo4 [where k = 0 and j = 3 and bytes = bytes]
    bytesFromTo4 [where k = 8 and j = 11 and bytes = bytes]
  by (simp add: sigWebp_def ascii_def)

lemma sigAvif_iff:
  "sigAvif bytes \<longleftrightarrow> bytesFromTo bytes 4 7 = ascii ''ftyp'' \<and>
     (bytesFromTo bytes 8 11 = ascii ''avif'' \<or> bytesFromTo bytes 8 11 = ascii ''avis'')"
  using bytesFromTo4 [where k = 4 and j = 7 and bytes = bytes]
    bytesFromTo4 [where k = 8 and j = 11 and bytes = bytes]
  by (simp add: sigAvif_def ascii_def fromCharCode_def charCode_eq_iff)

lemma detectFormat_sigs:
  "detectFormat data =
     (if sigJpeg data then ''jpeg'' else if sigPng data then ''png'' else if sigGif data then ''gif''
      else if sigWebp data then ''webp'' else if sigAvif data then ''avif'' else ''unknown'')"
  by (simp add: detectFormat_def sig_take12)

lemma index_pad_iff:
  assumes "v \<noteq> 0"
  shows "index (data @ replicate n 0) k = Some v \<longleftrightarrow> index data k = Some v"
  using assms by (auto simp: index_def nth_append)

lemma sig_pad:
  "sigJpeg (data @ replicate n 0) = sigJpeg data" "sigPng (data @ replicate n 0) = sigPng data"
  "sigGif (data @ replicate n 0) = sigGif data" "sigWebp (data @ replicate n 0) = sigWebp data"
  "sigAvif (data @ replicate n 0) = sigAvif data"
  by (simp_all add: sigJpeg_def sigPng_def sigGif_def sigWebp_def sigAvif_def fromCharCode_def
      charCode_eq_iff index_pad_iff)

lemma index_None: "int (length data) \<le> k \<Longrightarrow> index data k = None"
  by (simp add: index_def)

lemma sig_short:
  "length data < 3 \<Longrightarrow> \<not> sigJpeg data"
  "length data < 4 \<Longrightarrow> \<not> sigPng data"
  "length data < 4 \<Longrightarrow> \<not> sigGif data"
  "length data < 12 \<Longrightarrow> \<not> sigWebp data"
  "length data < 12 \<Longrightarrow> \<not> sigAvif data"
  by (simp_all add: sigJpeg_def sigPng_def sigGif_def sigWebp_def sigAvif_def index_None
      fromCharCode_def charCode_eq_iff)

section \<open>Bit operations on 32-bit words as arithmetic\<close>

lemma byteVal_ge0: "0 \<le> byteVal v"
  by (simp add: byteVal_def split: option.splits)

lemma byteVal_lt256: "byteVal v < 256"
  using uint_lt2p [where 'a = 8] by (simp add: byteVal_def split: option.splits)

lemma uint_toInt32: "uint (toInt32 v) = byteVal v"
proof (cases v)
  case None
  then show ?thesis by (simp add: toInt32_def byteVal_def)
next
  case (Some b)
  have "uint b < 2 ^ 32" using uint_lt2p [of b] by simp
  then have "take_bit 32 (uint b) = uint b" by (simp add: take_bit_int_eq_self)
  then show ?thesis using Some by (simp add: toInt32_def byteVal_def unsigned_ucast_eq)
qed

lemma int_or_push:
  fixes x y :: int
  assumes "0 \<le> x" "x < 2 ^ n"
  shows "x OR push_bit n y = x + 2 ^ n * y"
proof -
  have x: "take_bit n x = x" using assms by (simp add: take_bit_int_eq_self)
  have "\<not> bit x k \<or> \<not> bit (push_bit n y) k" for k
  proof (cases "k < n")
    case True then show ?thesis by (simp add: bit_push_bit_iff)
  next
    case False
    then have "\<not> bit (take_bit n x) k" by (simp add: bit_take_bit_iff)
    then show ?thesis by (simp add: x)
  qed
  then have "x + push_bit n y = x OR push_bit n y" by (rule disjunctive_add)
  then show ?thesis by (simp add: push_bit_eq_mult mult.commute)
qed

lemma sint_eq_uint32:
  fixes w :: int32
  assumes "uint w < 2147483648"
  shows "sint w = uint w"
proof -
  have "sint w = signed_take_bit 31 (uint w)" by (simp add: sint_uint)
  also have "\<dots> = uint w" 
  proof (rule signed_take_bit_int_eq_self)
    show "- (2 ^ 31) \<le> uint w" by (rule order_trans [of _ 0]) simp_all
    show "uint w < 2 ^ 31" using assms by simp
  qed
  finally show ?thesis .
qed

lemma uint_push_toInt32:
  assumes "n \<le> 24"
  shows "uint (push_bit n (toInt32 v)) = 2 ^ n * byteVal v"
proof -
  have "byteVal v < 2 ^ 8" using byteVal_lt256 [of v] by simp
  also have "(2::int) ^ 8 \<le> 2 ^ (32 - n)" using assms by (intro power_increasing) auto
  finally have "take_bit (32 - n) (byteVal v) = byteVal v"
    using byteVal_ge0 [of v] by (simp add: take_bit_int_eq_self)
  moreover have "uint (push_bit n (toInt32 v)) = push_bit n (take_bit (32 - n) (byteVal v))"
  proof -
    have "uint (push_bit n (toInt32 v)) = take_bit 32 (push_bit n (uint (toInt32 v)))"
      by (simp add: unsigned_push_bit_eq)
    then show ?thesis by (simp only: take_bit_push_bit uint_toInt32)
  qed
  ultimately show ?thesis by (simp add: push_bit_eq_mult mult.commute)
qed

lemma int_or_mult:
  fixes x y :: int
  assumes "0 \<le> x" "x < 2 ^ n"
  shows "x OR 2 ^ n * y = x + 2 ^ n * y" and "2 ^ n * y OR x = 2 ^ n * y + x"
proof -
  show "x OR 2 ^ n * y = x + 2 ^ n * y"
    using int_or_push [OF assms, of y] by (simp add: push_bit_eq_mult mult.commute)
  then show "2 ^ n * y OR x = 2 ^ n * y + x" by (simp add: or.commute add.commute)
qed

lemma uint_be16: "uint (push_bit 8 (toInt32 a) OR toInt32 b) = 256 * byteVal a + byteVal b"
proof -
  have "uint (push_bit 8 (toInt32 a) OR toInt32 b) = 2 ^ 8 * byteVal a OR byteVal b"
    by (simp only: uint_or uint_push_toInt32 uint_toInt32)
  also have "\<dots> = 2 ^ 8 * byteVal a + byteVal b"
    using byteVal_ge0 [of b] byteVal_lt256 [of b] by (intro int_or_mult) simp_all
  finally show ?thesis by simp
qed

lemma uint_le16: "uint (toInt32 a OR push_bit 8 (toInt32 b)) = byteVal a + 256 * byteVal b"
proof -
  have "uint (toInt32 a OR push_bit 8 (toInt32 b)) = byteVal a OR 2 ^ 8 * byteVal b"
    by (simp only: uint_or uint_push_toInt32 uint_toInt32)
  also have "\<dots> = byteVal a + 2 ^ 8 * byteVal b"
    using byteVal_ge0 [of a] byteVal_lt256 [of a] by (intro int_or_mult) simp_all
  finally show ?thesis by simp
qed

lemma uint_le24:
  "uint (toInt32 a OR push_bit 8 (toInt32 b) OR push_bit 16 (toInt32 c)) =
     byteVal a + 256 * byteVal b + 65536 * byteVal c"
proof -
  have "uint (push_bit 8 (toInt32 b) OR push_bit 16 (toInt32 c)) = 2 ^ 8 * byteVal b OR 2 ^ 16 * byteVal c"
    by (simp only: uint_or uint_push_toInt32)
  also have "\<dots> = 2 ^ 8 * byteVal b + 2 ^ 16 * byteVal c"
    using byteVal_ge0 [of b] byteVal_lt256 [of b] by (intro int_or_mult) simp_all
  finally have inner: "uint (push_bit 8 (toInt32 b) OR push_bit 16 (toInt32 c)) =
      2 ^ 8 * (byteVal b + 256 * byteVal c)" by simp
  have "uint (toInt32 a OR push_bit 8 (toInt32 b) OR push_bit 16 (toInt32 c)) =
      byteVal a OR 2 ^ 8 * (byteVal b + 256 * byteVal c)"
    by (simp only: uint_or [of "toInt32 a"] inner uint_toInt32)
  also have "\<dots> = byteVal a + 2 ^ 8 * (byteVal b + 256 * byteVal c)"
    using byteVal_ge0 [of a] byteVal_lt256 [of a] by (intro int_or_mult) simp_all
  finally show ?thesis by simp
qed

lemma uint_be32:
  "uint (push_bit 24 (toInt32 a) OR push_bit 16 (toInt32 b) OR push_bit 8 (toInt32 c) OR toInt32 d) =
     16777216 * byteVal a + 65536 * byteVal b + 256 * byteVal c + byteVal d"
proof -
  let ?lo = "push_bit 8 (toInt32 c) OR toInt32 d"
  let ?mid = "push_bit 16 (toInt32 b) OR ?lo"
  have lo: "uint ?lo = 256 * byteVal c + byteVal d" by (rule uint_be16)
  have lo_bounds: "0 \<le> uint ?lo" "uint ?lo < 2 ^ 16"
    using byteVal_ge0 [of c] byteVal_lt256 [of c] byteVal_ge0 [of d] byteVal_lt256 [of d]
    unfolding lo by simp_all
  have "uint ?mid = 2 ^ 16 * byteVal b OR uint ?lo"
    by (simp only: uint_or [of "push_bit 16 (toInt32 b)"] uint_push_toInt32)
  also have "\<dots> = 2 ^ 16 * byteVal b + uint ?lo"
    using lo_bounds by (intro int_or_mult) simp_all
  finally have mid: "uint ?mid = 65536 * byteVal b + 256 * byteVal c + byteVal d"
    unfolding lo by simp
  have mid_bounds: "0 \<le> uint ?mid" "uint ?mid < 2 ^ 24"
    using byteVal_ge0 [of b] byteVal_lt256 [of b] byteVal_ge0 [of c] byteVal_lt256 [of c]
      byteVal_ge0 [of d] byteVal_lt256 [of d]
    unfolding mid by simp_all
  have "uint (push_bit 24 (toInt32 a) OR ?mid) = 2 ^ 24 * byteVal a OR uint ?mid"
    by (simp only: uint_or [of "push_bit 24 (toInt32 a)"] uint_push_toInt32)
  also have "\<dots> = 2 ^ 24 * byteVal a + uint ?mid"
    using mid_bounds by (intro int_or_mult) simp_all
  finally show ?thesis unfolding mid by simp
qed

lemma sint_uint32_cases:
  fixes w :: int32
  shows "sint w = (if uint w < 2147483648 then uint w else uint w - 4294967296)"
proof (cases "uint w < 2147483648")
  case True
  then show ?thesis by (simp add: sint_eq_uint32)
next
  case False
  have "sint w = signed_take_bit 31 (uint w)" by (simp add: sint_uint)
  also have "\<dots> = (uint w + 2147483648) mod 4294967296 - 2147483648"
    by (simp add: signed_take_bit_eq_take_bit_shift take_bit_eq_mod)
  also have "uint w + 2147483648 = (uint w - 2147483648) + 4294967296" by simp
  also have "((uint w - 2147483648) + 4294967296) mod 4294967296 = (uint w - 2147483648) mod 4294967296"
    by (simp only: mod_add_self2)
  also have "\<dots> = uint w - 2147483648"
    using False uint_lt2p [of w] by (simp add: mod_pos_pos_trivial)
  finally show ?thesis using False by simp
qed

lemma byteOr0_bounds: "0 \<le> byteOr0 bytes k" "byteOr0 bytes k < 256"
  by (simp_all add: byteOr0_def byteVal_ge0 byteVal_lt256)

lemma be16_bounds: "0 \<le> be16 bytes k" "be16 bytes k < 65536"
  using byteOr0_bounds [of bytes k] byteOr0_bounds [of bytes "k + 1"] by (simp_all add: be16_def)

lemma sint_be16: "sint (push_bit 8 (toInt32 (index bytes k)) OR toInt32 (index bytes (k + 1))) = be16 bytes k"
proof -
  let ?w = "push_bit 8 (toInt32 (index bytes k)) OR toInt32 (index bytes (k + 1))"
  have u: "uint ?w = be16 bytes k" by (simp add: uint_be16 be16_def byteOr0_def)
  then have "uint ?w < 2147483648" using be16_bounds [of bytes k] by simp
  then show ?thesis using u by (simp add: sint_eq_uint32)
qed

lemma sint_le16: "sint (toInt32 (index bytes k) OR push_bit 8 (toInt32 (index bytes (k + 1)))) = le16 bytes k"
proof -
  let ?w = "toInt32 (index bytes k) OR push_bit 8 (toInt32 (index bytes (k + 1)))"
  have u: "uint ?w = le16 bytes k" by (simp add: uint_le16 le16_def byteOr0_def)
  then have "uint ?w < 2147483648"
    using byteOr0_bounds [of bytes k] byteOr0_bounds [of bytes "k + 1"] by (simp add: le16_def)
  then show ?thesis using u by (simp add: sint_eq_uint32)
qed

lemma sint_be32:
  "sint (push_bit 24 (toInt32 (index bytes k)) OR push_bit 16 (toInt32 (index bytes (k + 1)))
         OR push_bit 8 (toInt32 (index bytes (k + 2))) OR toInt32 (index bytes (k + 3))) = wrapInt32 (be32u bytes k)"
  by (simp add: sint_uint32_cases uint_be32 wrapInt32_def be32u_def byteOr0_def)

lemma sint_le24:
  "sint (toInt32 (index bytes k) OR push_bit 8 (toInt32 (index bytes (k + 1)))
         OR push_bit 16 (toInt32 (index bytes (k + 2)))) = le24 bytes k"
proof -
  let ?w = "toInt32 (index bytes k) OR push_bit 8 (toInt32 (index bytes (k + 1)))
         OR push_bit 16 (toInt32 (index bytes (k + 2)))"
  have u: "uint ?w = le24 bytes k" by (simp add: uint_le24 le24_def byteOr0_def)
  then have "uint ?w < 2147483648"
    using byteOr0_bounds [of bytes k] byteOr0_bounds [of bytes "k + 1"] byteOr0_bounds [of bytes "k + 2"]
    by (simp add: le24_def)
  then show ?thesis using u by (simp add: sint_eq_uint32)
qed

lemma sint_and_3FFF:
  fixes w :: int32
  shows "sint (w AND 0x3FFF) = uint w AND 0x3FFF"
proof -
  have u: "uint (w AND 0x3FFF) = uint w AND 0x3FFF" by (simp add: uint_and)
  have "uint w AND 0x3FFF \<le> 0x3FFF" by (rule AND_upper2) simp
  then have "uint (w AND 0x3FFF) < 2147483648" unfolding u by simp
  then show ?thesis using u by (simp add: sint_eq_uint32)
qed

lemma uint_le16_bits:
  "uint (toInt32 a OR push_bit 8 (toInt32 b)) = byteVal a OR push_bit 8 (byteVal b)"
proof -
  have "uint (toInt32 a OR push_bit 8 (toInt32 b)) = byteVal a OR 2 ^ 8 * byteVal b"
    by (simp only: uint_or uint_push_toInt32 uint_toInt32)
  then show ?thesis by (simp add: push_bit_eq_mult mult.commute)
qed

lemma le16_bits: "byteVal a OR push_bit 8 (byteVal b) = byteVal a + 256 * byteVal b"
  using uint_le16_bits [of a b] uint_le16 [of a b] by simp

lemma uint_signed_drop_bit_toInt32: "uint (signed_drop_bit n (toInt32 v)) = drop_bit n (byteVal v)"
proof -
  have "uint (toInt32 v) < 2147483648" using byteVal_lt256 [of v] by (simp add: uint_toInt32)
  then have s: "sint (toInt32 v) = byteVal v" by (simp add: sint_eq_uint32 uint_toInt32)
  have "sint (signed_drop_bit n (toInt32 v)) = drop_bit n (byteVal v)"
    by (simp add: sint_signed_drop_bit_eq s)
  moreover have "0 \<le> drop_bit n (byteVal v)" using byteVal_ge0 [of v] by simp
  ultimately have "0 \<le> sint (signed_drop_bit n (toInt32 v))" by simp
  then have "uint (signed_drop_bit n (toInt32 v)) = sint (signed_drop_bit n (toInt32 v))"
    using uint_lt2p [of "signed_drop_bit n (toInt32 v)"]
    by (simp add: sint_uint32_cases split: if_splits)
  then show ?thesis using \<open>sint (signed_drop_bit n (toInt32 v)) = drop_bit n (byteVal v)\<close> by simp
qed

lemma uint_vp8l_height:
  "uint (signed_drop_bit 6 (toInt32 b1) OR push_bit 2 (toInt32 b2) OR push_bit 10 (toInt32 b3)) =
     drop_bit 6 (byteVal b1) OR push_bit 2 (byteVal b2) OR push_bit 10 (byteVal b3)"
proof -
  have "uint (signed_drop_bit 6 (toInt32 b1) OR push_bit 2 (toInt32 b2) OR push_bit 10 (toInt32 b3)) =
     drop_bit 6 (byteVal b1) OR 2 ^ 2 * byteVal b2 OR 2 ^ 10 * byteVal b3"
    by (simp only: uint_or uint_push_toInt32 uint_signed_drop_bit_toInt32)
  then show ?thesis by (simp add: push_bit_eq_mult mult.commute)
qed

lemma index_FF_iff: "index bytes k = Some 0xFF \<longleftrightarrow> byteOr0 bytes k = 0xFF"
proof (cases "index bytes k")
  case None
  then show ?thesis by (simp add: byteOr0_def byteVal_def)
next
  case (Some b)
  have "b = 0xFF \<longleftrightarrow> uint b = uint (0xFF :: byte)" by (simp only: word_uint_eq_iff)
  then show ?thesis using Some by (simp add: byteOr0_def byteVal_def)
qed

lemma index_eq_byteOr0:
  assumes "v \<noteq> 0"
  shows "index bytes k = Some v \<longleftrightarrow> byteOr0 bytes k = uint v"
proof (cases "index bytes k")
  case None
  moreover have "uint v \<noteq> 0" using assms by (simp add: unsigned_eq_0_iff)
  ultimately show ?thesis by (simp add: byteOr0_def byteVal_def)
next
  case (Some b)
  have "b = v \<longleftrightarrow> uint b = uint v" by (simp only: word_uint_eq_iff)
  then show ?thesis using Some by (simp add: byteOr0_def byteVal_def)
qed

lemma isSof_iff: "isSof (index bytes k) \<longleftrightarrow> isSofValue (byteOr0 bytes k)"
proof (cases "index bytes k")
  case None
  then show ?thesis by (simp add: byteOr0_def byteVal_def isSof_def isSofValue_def)
next
  case (Some b)
  have "b = w \<longleftrightarrow> uint b = uint w" for w :: byte by (simp only: word_uint_eq_iff)
  then show ?thesis using Some 
    by (simp add: byteOr0_def byteVal_def isSof_def isSofValue_def word_le_def)
qed

lemma charCode_eq_byteVal: "charCode v = c \<longleftrightarrow> byteVal v = int (of_char c)"
proof (cases v)
  case None
  then show ?thesis by (simp add: charCode_def byteVal_def char_of_eq_iff) 
next
  case (Some b)
  have tb: "take_bit 8 (unat b) = unat b"
    using unsigned_less [of b, where ?'a = nat] by (simp add: take_bit_nat_eq_self_iff)
  have 1: "char_of (unat b) = c \<longleftrightarrow> unat b = of_char c"
    by (simp add: char_of_eq_iff tb)
  have 2: "unat b = of_char c \<longleftrightarrow> uint b = int (of_char c)"
    by (metis of_nat_eq_iff uint_nat)
  show ?thesis unfolding Some charCode_def byteVal_def option.case 1 2 ..
qed

lemma byteOr0_pad: "byteOr0 (data @ replicate n 0) k = byteOr0 data k"
  by (auto simp: byteOr0_def byteVal_def index_def nth_append)

lemma byteOr0_beyond: "int (length data) \<le> k \<Longrightarrow> byteOr0 data k = 0"
  by (simp add: byteOr0_def byteVal_def index_def)

section \<open>The JPEG scan\<close>

lemma jpegScan_refines: "jpegScan bytes i = Some (jpegScan_spec bytes i)"
proof (induction bytes i rule: jpegScan_spec.induct)
  case (1 bytes i)
  have s5: "i + 5 + 1 = i + 6" and s7: "i + 7 + 1 = i + 8" and s2: "i + 2 + 1 = i + 3" by simp_all
  note rd = sint_be16 [of bytes "i + 5", unfolded s5] sint_be16 [of bytes "i + 7", unfolded s7]
    sint_be16 [of bytes "i + 2", unfolded s2]
  show ?case
  proof (cases "i < int (length bytes)")
    case False
    then show ?thesis by (subst jpegScan.simps, subst jpegScan_spec.simps) simp
  next
    case in_range: True
    show ?thesis
    proof (cases "byteOr0 bytes i = 0xFF")
      case False
      then have "jpegScan bytes (i + 1) = Some (jpegScan_spec bytes (i + 1))"
        using "1.IH"(1) in_range by simp
      then show ?thesis using in_range False
        by (subst jpegScan.simps, subst jpegScan_spec.simps) (simp add: index_FF_iff)
    next
      case ff: True
      show ?thesis
      proof (cases "isSofValue (byteOr0 bytes (i + 1))")
        case True
        then show ?thesis using in_range ff
          by (subst jpegScan.simps, subst jpegScan_spec.simps) (simp add: index_FF_iff isSof_iff rd)
      next
        case False
        then have "jpegScan bytes (i + (2 + be16 bytes (i + 2))) =
            Some (jpegScan_spec bytes (i + (2 + be16 bytes (i + 2))))"
          using "1.IH"(2) in_range ff by simp
        then show ?thesis using in_range ff False
          by (subst jpegScan.simps, subst jpegScan_spec.simps) (simp add: index_FF_iff isSof_iff rd)
      qed
    qed
  qed
qed

lemma no_sof_at:
  assumes "\<not> hasSofMarker bytes" "2 \<le> i" "i < int (length bytes)" "byteOr0 bytes i = 0xFF"
  shows "\<not> isSofValue (byteOr0 bytes (i + 1))"
proof
  assume sof: "isSofValue (byteOr0 bytes (i + 1))"
  have mem: "nat i \<in> set [2..<length bytes]" using assms(2,3) by auto
  have eq: "int (nat i) = i" using assms(2) by simp
  have "byteOr0 bytes (int (nat i)) = 0xFF \<and> isSofValue (byteOr0 bytes (int (nat i) + 1))"
    unfolding eq using assms(4) sof by simp
  then have "hasSofMarker bytes"
    unfolding hasSofMarker_def list_ex_iff using mem by (rule_tac bexI)
  then show False using assms(1) by simp
qed

lemma jpegScan_spec_no_sof:
  assumes "\<not> hasSofMarker bytes"
  shows "2 \<le> i \<Longrightarrow> jpegScan_spec bytes i = fallback"
  using assms
proof (induction bytes i rule: jpegScan_spec.induct)
  case (1 bytes i)
  show ?case
  proof (cases "i < int (length bytes)")
    case False
    then show ?thesis by (subst jpegScan_spec.simps) simp
  next
    case in_range: True
    show ?thesis
    proof (cases "byteOr0 bytes i = 0xFF")
      case False
      then have "jpegScan_spec bytes (i + 1) = fallback"
        using "1.prems" in_range by (intro "1.IH"(1)) simp_all
      then show ?thesis using in_range False by (subst jpegScan_spec.simps) simp
    next
      case ff: True
      have ns: "\<not> isSofValue (byteOr0 bytes (i + 1))"
        using "1.prems" in_range ff by (intro no_sof_at) simp_all
      have "2 \<le> i + (2 + be16 bytes (i + 2))"
        using "1.prems"(1) be16_bounds(1) [of bytes "i + 2"] by simp
      then have "jpegScan_spec bytes (i + (2 + be16 bytes (i + 2))) = fallback"
        using "1.prems"(2) in_range ff ns by (intro "1.IH"(2)) simp_all
      then show ?thesis using in_range ff ns by (subst jpegScan_spec.simps) simp
    qed
  qed
qed

section \<open>The AVIF box walk\<close>

lemma boxType_eq:
  "fromCharCode [index bytes (k + 4), index bytes (k + 5), index bytes (k + 6), index bytes (k + 7)] = [a, b, c, d]
   \<longleftrightarrow> tagAt bytes (k + 4) = asciiCodes [a, b, c, d]"
  by (simp add: fromCharCode_def tagAt_def asciiCodes_def byteOr0_def charCode_eq_byteVal add.assoc)

text \<open>
  One step of the walk in the code, with its reads as arithmetic: each big-endian 32-bit
  number is wrapped to a signed number (\<open>wrapInt32\<close>).
\<close>

lemma avifWalk_step:
  "avifWalk bytes offset =
     (if offset < int (length bytes) - 8 then
        (if wrapInt32 (be32u bytes offset) = 0 then Some fallback
         else if tagAt bytes (offset + 4) = asciiCodes ''ispe'' then
           Some \<lparr> width = wrapInt32 (be32u bytes (offset + 12)), height = wrapInt32 (be32u bytes (offset + 16)) \<rparr>
         else if tagAt bytes (offset + 4) = asciiCodes ''meta'' then avifWalk bytes (offset + 12)
         else if tagAt bytes (offset + 4) = asciiCodes ''iprp'' \<or>
                 tagAt bytes (offset + 4) = asciiCodes ''ipco'' then avifWalk bytes (offset + 8)
         else avifWalk bytes (offset + wrapInt32 (be32u bytes offset)))
      else Some fallback)"
proof -
  have s12: "offset + 12 + 1 = offset + 13" "offset + 12 + 2 = offset + 14" "offset + 12 + 3 = offset + 15"
    and s16: "offset + 16 + 1 = offset + 17" "offset + 16 + 2 = offset + 18" "offset + 16 + 3 = offset + 19"
    by simp_all
  note rd = sint_be32 [of bytes offset] sint_be32 [of bytes "offset + 12", unfolded s12]
    sint_be32 [of bytes "offset + 16", unfolded s16]
  have neq: "asciiCodes ''meta'' \<noteq> asciiCodes ''iprp''" "asciiCodes ''meta'' \<noteq> asciiCodes ''ipco''"
    by (simp_all add: asciiCodes_def)
  show ?thesis
    by (subst avifWalk.simps) (auto simp: Let_def rd boxType_eq neq)
qed

text \<open>
  Nested meta, iprp, ipco and ispe boxes with width 1200 and height 800 yield (1200, 800);
  the same boxes without the ispe box yield (1920, 1080).
\<close>

lemma getAvifDimensions_examples:
  "getAvifDimensions
     [0x00, 0x00, 0x00, 0x10, 0x66, 0x74, 0x79, 0x70, 0x61, 0x76, 0x69, 0x66, 0x00, 0x00, 0x00, 0x00,
      0x00, 0x00, 0x00, 0x30, 0x6D, 0x65, 0x74, 0x61, 0x00, 0x00, 0x00, 0x00,
      0x00, 0x00, 0x00, 0x24, 0x69, 0x70, 0x72, 0x70,
      0x00, 0x00, 0x00, 0x1C, 0x69, 0x70, 0x63, 0x6F,
      0x00, 0x00, 0x00, 0x14, 0x69, 0x73, 0x70, 0x65, 0x00, 0x00, 0x00, 0x00,
      0x00, 0x00, 0x04, 0xB0, 0x00, 0x00, 0x03, 0x20] = Some \<lparr> width = 1200, height = 800 \<rparr>"
  "getAvifDimensions
     [0x00, 0x00, 0x00, 0x10, 0x66, 0x74, 0x79, 0x70, 0x61, 0x76, 0x69, 0x66, 0x00, 0x00, 0x00, 0x00,
      0x00, 0x00, 0x00, 0x1C, 0x6D, 0x65, 0x74, 0x61, 0x00, 0x00, 0x00, 0x00,
      0x00, 0x00, 0x00, 0x10, 0x69, 0x70, 0x72, 0x70,
      0x00, 0x00, 0x00, 0x08, 0x69, 0x70, 0x63, 0x6F] = Some \<lparr> width = 1920, height = 1080 \<rparr>"
  by code_simp+

lemma avifLoop_cycle:
  assumes "avifWalk b off = Some y"
  shows "\<not> (b = avifLoop \<and> (off = 0 \<or> off = 16))"
proof (rule avifWalk.raw_induct
    [where P = "\<lambda>b off y. \<not> (b = avifLoop \<and> (off = 0 \<or> off = 16))", OF _ assms], goal_cases)
  case (1 f bytes offset y)
  note ih = "1"(1) and body = "1"(2)
  show ?case
  proof
    assume a: "bytes = avifLoop \<and> (offset = 0 \<or> offset = 16)"
    then consider "offset = 0" | "offset = 16" by blast
    then show False
    proof cases
      case 1
      have "f avifLoop 16 = Some y"
        using body a 1
        by (simp add: avifLoop_def index_def toInt32_def fromCharCode_def charCode_def char_of_eq_iff)
      then show False using ih [of avifLoop 16 y] by simp
    next
      case 2
      have "f avifLoop 0 = Some y"
        using body a 2
        by (simp add: avifLoop_def index_def toInt32_def fromCharCode_def charCode_def char_of_eq_iff)
      then show False using ih [of avifLoop 0 y] by simp
    qed
  qed
qed

lemma avifWalk_avifLoop: "avifWalk avifLoop 0 = None"
proof (cases "avifWalk avifLoop 0")
  case None
  then show ?thesis .
next
  case (Some d)
  then show ?thesis using avifLoop_cycle [of avifLoop 0 d] by simp
qed

lemma avifLoop_detect: "detectFormat avifLoop = ''avif''"
  by (simp add: detectFormat_sigs sigJpeg_def sigPng_def sigGif_def sigWebp_def sigAvif_def avifLoop_def index_def
      fromCharCode_def charCode_def char_of_eq_iff)

section \<open>The fixed-offset readers\<close>

lemma tag_eq:
  assumes "a \<noteq> 0" "b \<noteq> 0" "c \<noteq> 0" "d \<noteq> 0"
  shows "index bytes k = Some a \<and> index bytes (k + 1) = Some b \<and> index bytes (k + 2) = Some c \<and>
         index bytes (k + 3) = Some d \<longleftrightarrow> tagAt bytes k = [uint a, uint b, uint c, uint d]"
  using assms by (simp add: tagAt_def index_eq_byteOr0)

lemma getWebpDimensions_refines: "getWebpDimensions bytes = getWebpDimensions_spec bytes"
proof -
  have x: "index bytes 12 = Some 0x56 \<and> index bytes 13 = Some 0x50 \<and> index bytes 14 = Some 0x38 \<and>
         index bytes 15 = Some 0x58 \<longleftrightarrow> tagAt bytes 12 = asciiCodes ''VP8X''"
    using tag_eq [where a = "0x56" and b = "0x50" and c = "0x38" and d = "0x58" and bytes = bytes and k = 12] by (simp add: asciiCodes_def)
  have l: "index bytes 12 = Some 0x56 \<and> index bytes 13 = Some 0x50 \<and> index bytes 14 = Some 0x38 \<and>
         index bytes 15 = Some 0x4C \<longleftrightarrow> tagAt bytes 12 = asciiCodes ''VP8L''"
    using tag_eq [where a = "0x56" and b = "0x50" and c = "0x38" and d = "0x4C" and bytes = bytes and k = 12] by (simp add: asciiCodes_def)
  have v: "index bytes 12 = Some 0x56 \<and> index bytes 13 = Some 0x50 \<and> index bytes 14 = Some 0x38 \<and>
         index bytes 15 = Some 0x20 \<longleftrightarrow> tagAt bytes 12 = asciiCodes ''VP8 ''"
    using tag_eq [where a = "0x56" and b = "0x50" and c = "0x38" and d = "0x20" and bytes = bytes and k = 12] by (simp add: asciiCodes_def)
  have ne: "asciiCodes ''VP8X'' \<noteq> asciiCodes ''VP8L''" "asciiCodes ''VP8X'' \<noteq> asciiCodes ''VP8 ''"
    "asciiCodes ''VP8L'' \<noteq> asciiCodes ''VP8 ''"
    by (simp_all add: asciiCodes_def)
  note w24 = sint_le24 [of bytes 24, simplified] sint_le24 [of bytes 27, simplified]
  have le: "le16 bytes 26 = byteVal (index bytes 26) + 256 * byteVal (index bytes 27)"
    "le16 bytes 28 = byteVal (index bytes 28) + 256 * byteVal (index bytes 29)"
    by (simp_all add: le16_def byteOr0_def)
  show ?thesis
    unfolding getWebpDimensions_def getWebpDimensions_spec_def x l v
    by (simp add: Let_def ne w24 sint_and_3FFF uint_le16 le16_bits uint_vp8l_height le byteOr0_def)
qed

lemma getPngDimensions_refines:
  "getPngDimensions bytes = \<lparr> width = wrapInt32 (be32u bytes 16), height = wrapInt32 (be32u bytes 20) \<rparr>"
  using sint_be32 [of bytes 16] sint_be32 [of bytes 20] by (simp add: getPngDimensions_def)

lemma getGifDimensions_refines:
  "getGifDimensions bytes = \<lparr> width = le16 bytes 6, height = le16 bytes 8 \<rparr>"
  using sint_le16 [of bytes 6] sint_le16 [of bytes 8] by (simp add: getGifDimensions_def)

lemma readers_pad:
  "getPngDimensions (data @ replicate n 0) = getPngDimensions data"
  "getGifDimensions (data @ replicate n 0) = getGifDimensions data"
  "getWebpDimensions (data @ replicate n 0) = getWebpDimensions data"
  by (simp_all add: getPngDimensions_refines getGifDimensions_refines getWebpDimensions_refines
      getWebpDimensions_spec_def wrapInt32_def be32u_def le16_def le24_def tagAt_def byteOr0_pad Let_def)

lemma readers_truncated:
  "length data \<le> 16 \<Longrightarrow> getPngDimensions data = \<lparr> width = 0, height = 0 \<rparr>"
  "length data \<le> 6 \<Longrightarrow> getGifDimensions data = \<lparr> width = 0, height = 0 \<rparr>"
  "length data \<le> 12 \<Longrightarrow> getWebpDimensions data = fallback"
  by (simp_all add: getPngDimensions_refines getGifDimensions_refines getWebpDimensions_refines
      getWebpDimensions_spec_def wrapInt32_def be32u_def le16_def le24_def tagAt_def byteOr0_beyond asciiCodes_def
      Let_def)

lemma getImageDimensions_returns:
  "detectFormat data \<noteq> ''avif'' \<Longrightarrow> \<exists>d. getImageDimensions data = Some d"
  by (simp add: getImageDimensions_def getJpegDimensions_def jpegScan_refines Let_def)

section \<open>Sign of the dimensions\<close>

text \<open>
  The JPEG, GIF and WebP readers and the fallback give non-negative numbers. A big-endian
  32-bit read of the code is the unsigned number wrapped to 32 signed bits: the unsigned
  number itself when the first byte is below \<open>0x80\<close>, a negative number otherwise.
\<close>

lemma jpegScan_spec_nonneg: "0 \<le> width (jpegScan_spec bytes i) \<and> 0 \<le> height (jpegScan_spec bytes i)"
proof (induction bytes i rule: jpegScan_spec.induct)
  case (1 bytes i)
  show ?case
    using "1.IH" be16_bounds(1) [of bytes "i + 7"] be16_bounds(1) [of bytes "i + 5"]
    by (subst (1 2) jpegScan_spec.simps) (simp add: fallback_def)
qed

lemma le16_nonneg: "0 \<le> le16 bytes k"
  using byteOr0_bounds(1) [of bytes k] byteOr0_bounds(1) [of bytes "k + 1"] by (simp add: le16_def)

lemma le24_nonneg: "0 \<le> le24 bytes k"
  using byteOr0_bounds(1) [of bytes k] byteOr0_bounds(1) [of bytes "k + 1"]
    byteOr0_bounds(1) [of bytes "k + 2"] by (simp add: le24_def)

lemma getWebpDimensions_nonneg:
  "0 \<le> width (getWebpDimensions bytes) \<and> 0 \<le> height (getWebpDimensions bytes)"
  using le16_nonneg [of bytes 26] le16_nonneg [of bytes 28] le24_nonneg [of bytes 24]
    le24_nonneg [of bytes 27]
  by (simp add: getWebpDimensions_refines getWebpDimensions_spec_def Let_def fallback_def)

lemma getImageDimensions_nonneg:
  assumes "detectFormat data \<noteq> ''png''" "detectFormat data \<noteq> ''avif''"
    and "getImageDimensions data = Some d"
  shows "0 \<le> width d \<and> 0 \<le> height d"
  using assms jpegScan_spec_nonneg [of data 2] le16_nonneg [of data 6] le16_nonneg [of data 8]
    getWebpDimensions_nonneg [of data]
  by (auto simp: getImageDimensions_def Let_def getJpegDimensions_def jpegScan_refines
      getGifDimensions_refines split: if_splits)

lemma wrapInt32_be32u_unsigned: "byteOr0 bytes k < 128 \<Longrightarrow> wrapInt32 (be32u bytes k) = be32u bytes k"
  using byteOr0_bounds [of bytes "k + 1"] byteOr0_bounds [of bytes "k + 2"] byteOr0_bounds [of bytes "k + 3"]
  by (simp add: wrapInt32_def be32u_def)

lemma wrapInt32_be32u_negative: "128 \<le> byteOr0 bytes k \<Longrightarrow> wrapInt32 (be32u bytes k) < 0"
  using byteOr0_bounds [of bytes k] byteOr0_bounds [of bytes "k + 1"] byteOr0_bounds [of bytes "k + 2"]
    byteOr0_bounds [of bytes "k + 3"]
  by (simp add: wrapInt32_def be32u_def)

section \<open>Format detection: claims\<close>

text \<open>
  Claim C3. For every buffer, \<open>detectFormat\<close> returns the tag of the first signature rule
  that matches, in the order jpeg (bytes 0..2 = FF D8 FF), png (bytes 0..3 = 89 50 4E 47),
  gif (bytes 0..3 = 47 49 46 38), webp (bytes 0..3 = "RIFF" and bytes 8..11 = "WEBP"),
  avif (bytes 4..7 = "ftyp" and bytes 8..11 = "avif" or "avis"), and \<open>unknown\<close> when no
  rule matches; the result depends only on the first 12 bytes.
\<close>

theorem detectFormat_refines:
  "detectFormat data = detectFormat_spec data \<and> detectFormat (take 12 data) = detectFormat data"
  by (simp add: detectFormat_def detectFormat_spec_def sig_take12 
      sigJpeg_iff [symmetric] sigPng_iff [symmetric] sigGif_iff [symmetric] sigWebp_iff [symmetric] sigAvif_iff [symmetric])

text \<open>
  Claim C5, as stated, fails: a buffer of at most 12 bytes that holds a complete signature
  is classified, for example the three bytes FF D8 FF are \<open>jpeg\<close>.
\<close>

theorem detectFormat_short_buffer_counterexample:
  "length [0xFF, 0xD8, 0xFF :: byte] \<le> 12 \<and> detectFormat [0xFF, 0xD8, 0xFF] = ''jpeg'' \<and>
   detectFormat [0xFF, 0xD8, 0xFF] \<noteq> ''unknown''"
  by (simp add: detectFormat_def sigJpeg_def index_def)

text \<open>
  Claim C5, amended. A read beyond the end of the buffer matches no signature byte, exactly
  as a byte of value 0 would: padding a buffer with zero bytes never changes the detected
  format. A buffer shorter than 3 bytes is \<open>unknown\<close>; one shorter than 4 bytes can only
  be \<open>jpeg\<close> or \<open>unknown\<close>; one shorter than 12 bytes is never \<open>webp\<close> or
  \<open>avif\<close>.
\<close>

theorem detectFormat_short_buffer:
  "detectFormat (data @ replicate n 0) = detectFormat data \<and>
   (length data < 3 \<longrightarrow> detectFormat data = ''unknown'') \<and>
   (length data < 4 \<longrightarrow> detectFormat data = ''jpeg'' \<or> detectFormat data = ''unknown'') \<and>
   (length data < 12 \<longrightarrow> detectFormat data = ''jpeg'' \<or> detectFormat data = ''png'' \<or>
      detectFormat data = ''gif'' \<or> detectFormat data = ''unknown'')"
proof (intro conjI impI)
  show "detectFormat (data @ replicate n 0) = detectFormat data"
    by (simp add: detectFormat_sigs sig_pad)
next
  assume "length data < 3"
  then show "detectFormat data = ''unknown''"
    by (simp add: detectFormat_sigs sig_short)
next
  assume "length data < 4"
  then show "detectFormat data = ''jpeg'' \<or> detectFormat data = ''unknown''"
    by (simp add: detectFormat_sigs sig_short)
next
  assume "length data < 12"
  then show "detectFormat data = ''jpeg'' \<or> detectFormat data = ''png'' \<or>
      detectFormat data = ''gif'' \<or> detectFormat data = ''unknown''"
    by (simp add: detectFormat_sigs sig_short)
qed

theorem detectFormat_short_buffer_witness:
  "detectFormat ([0xFF, 0xD8] @ replicate 10 0) = detectFormat [0xFF, 0xD8] \<and>
   detectFormat [0xFF, 0xD8] = ''unknown''"
  using detectFormat_short_buffer [of "[0xFF, 0xD8]" 10] by simp

text \<open>
  Claim C6, as stated, fails: the AVIF check reads bytes 4..11 only, so it can hold together
  with the JPEG check (which reads bytes 0..2). The buffer below satisfies both.
\<close>

theorem signatures_exclusive_counterexample:
  "sigJpeg [0xFF, 0xD8, 0xFF, 0x00, 0x66, 0x74, 0x79, 0x70, 0x61, 0x76, 0x69, 0x66] \<and>
   sigAvif [0xFF, 0xD8, 0xFF, 0x00, 0x66, 0x74, 0x79, 0x70, 0x61, 0x76, 0x69, 0x66]"
  by (simp add: sigJpeg_def sigAvif_def index_def fromCharCode_def charCode_eq_iff)

text \<open>
  Claim C6, amended. The JPEG, PNG, GIF and WebP checks are pairwise exclusive (they differ
  in byte 0), and the WebP and AVIF checks are exclusive (they differ in bytes 8..11). The
  AVIF check can hold together with the JPEG, the PNG and the GIF check: the three buffers
  below, a JPEG, a PNG and a GIF signature followed by \<open>ftyp\<close> and \<open>avif\<close>, satisfy
  both.
\<close>

theorem signatures_exclusive:
  "\<not> (sigJpeg bytes \<and> sigPng bytes) \<and> \<not> (sigJpeg bytes \<and> sigGif bytes) \<and>
   \<not> (sigJpeg bytes \<and> sigWebp bytes) \<and> \<not> (sigPng bytes \<and> sigGif bytes) \<and>
   \<not> (sigPng bytes \<and> sigWebp bytes) \<and> \<not> (sigGif bytes \<and> sigWebp bytes) \<and>
   \<not> (sigWebp bytes \<and> sigAvif bytes) \<and>
   sigJpeg [0xFF, 0xD8, 0xFF, 0x00, 0x66, 0x74, 0x79, 0x70, 0x61, 0x76, 0x69, 0x66] \<and>
   sigAvif [0xFF, 0xD8, 0xFF, 0x00, 0x66, 0x74, 0x79, 0x70, 0x61, 0x76, 0x69, 0x66] \<and>
   sigPng [0x89, 0x50, 0x4E, 0x47, 0x66, 0x74, 0x79, 0x70, 0x61, 0x76, 0x69, 0x66] \<and>
   sigAvif [0x89, 0x50, 0x4E, 0x47, 0x66, 0x74, 0x79, 0x70, 0x61, 0x76, 0x69, 0x66] \<and>
   sigGif [0x47, 0x49, 0x46, 0x38, 0x66, 0x74, 0x79, 0x70, 0x61, 0x76, 0x69, 0x66] \<and>
   sigAvif [0x47, 0x49, 0x46, 0x38, 0x66, 0x74, 0x79, 0x70, 0x61, 0x76, 0x69, 0x66]"
proof -
  have excl: "\<not> (sigJpeg bytes \<and> sigPng bytes) \<and> \<not> (sigJpeg bytes \<and> sigGif bytes) \<and>
   \<not> (sigJpeg bytes \<and> sigWebp bytes) \<and> \<not> (sigPng bytes \<and> sigGif bytes) \<and>
   \<not> (sigPng bytes \<and> sigWebp bytes) \<and> \<not> (sigGif bytes \<and> sigWebp bytes) \<and>
   \<not> (sigWebp bytes \<and> sigAvif bytes)"
    by (auto simp: sigJpeg_def sigPng_def sigGif_def sigWebp_def sigAvif_def fromCharCode_def
        charCode_eq_iff)
  have jpeg: "sigJpeg [0xFF, 0xD8, 0xFF, 0x00, 0x66, 0x74, 0x79, 0x70, 0x61, 0x76, 0x69, 0x66] \<and>
      sigAvif [0xFF, 0xD8, 0xFF, 0x00, 0x66, 0x74, 0x79, 0x70, 0x61, 0x76, 0x69, 0x66]"
    by (simp add: sigJpeg_def sigAvif_def index_def fromCharCode_def charCode_eq_iff)
  have png: "sigPng [0x89, 0x50, 0x4E, 0x47, 0x66, 0x74, 0x79, 0x70, 0x61, 0x76, 0x69, 0x66] \<and>
      sigAvif [0x89, 0x50, 0x4E, 0x47, 0x66, 0x74, 0x79, 0x70, 0x61, 0x76, 0x69, 0x66]"
    by (simp add: sigPng_def sigAvif_def index_def fromCharCode_def charCode_eq_iff)
  have gif: "sigGif [0x47, 0x49, 0x46, 0x38, 0x66, 0x74, 0x79, 0x70, 0x61, 0x76, 0x69, 0x66] \<and>
      sigAvif [0x47, 0x49, 0x46, 0x38, 0x66, 0x74, 0x79, 0x70, 0x61, 0x76, 0x69, 0x66]"
    by (simp add: sigGif_def sigAvif_def index_def fromCharCode_def charCode_eq_iff)
  show ?thesis using excl jpeg png gif by blast
qed

section \<open>Extension lookup: claims\<close>

text \<open>
  On every key that \<^verbatim>\<open>Object.prototype\<close> does not define, \<open>getExtension\<close> returns a
  string on which it is idempotent: the six known keys map to fixed points (\<open>jpeg\<close> and
  \<open>jpg\<close> to \<open>jpg\<close>, the other four to themselves) and any other such key is returned
  unchanged.
\<close>

lemma getExtension_plain_keys:
  assumes "s \<notin> set objectPrototypeKeys"
  shows "\<exists>t. getExtension s = Str t \<and> getExtension t = Str t"
    and "s \<notin> set [''jpeg'', ''jpg'', ''png'', ''gif'', ''webp'', ''avif''] \<Longrightarrow> getExtension s = Str s"
  using assms
  by (auto simp: getExtension_def extensions_def truthy_def objectPrototypeKeys_def
      split: option.splits if_splits)

lemma getExtension_known_keys:
  "getExtension ''jpeg'' = Str ''jpg''" "getExtension ''jpg'' = Str ''jpg''"
  "getExtension ''png'' = Str ''png''" "getExtension ''gif'' = Str ''gif''"
  "getExtension ''webp'' = Str ''webp''" "getExtension ''avif'' = Str ''avif''"
  by (simp_all add: getExtension_def extensions_def truthy_def)

text \<open>
  Claim C10 fails on the keys that the object literal inherits: \<open>constructor\<close> is not one
  of the six known keys, and \<open>getExtension\<close> does not return it unchanged but returns the
  inherited member, which is not a string.
\<close>

theorem getExtension_inherited_key:
  "getExtension ''constructor'' = Inherited ''constructor'' \<and>
   getExtension ''constructor'' \<noteq> Str ''constructor''"
  by (simp add: getExtension_def extensions_def truthy_def objectPrototypeKeys_def)

section \<open>Dimension readers: claims\<close>

text \<open>
  Claim C1, as stated, fails: a truncated structure does not yield the fallback. The four
  bytes 89 50 4E 47 are detected as \<open>png\<close> and hold no dimension fields; the reader
  returns (0, 0), not (1920, 1080).
\<close>

theorem readers_total_counterexample:
  "detectFormat [0x89, 0x50, 0x4E, 0x47] = ''png'' \<and>
   getImageDimensions [0x89, 0x50, 0x4E, 0x47] = Some \<lparr> width = 0, height = 0 \<rparr> \<and>
   getImageDimensions [0x89, 0x50, 0x4E, 0x47] \<noteq> Some fallback"
  by (simp add: getImageDimensions_def detectFormat_def sigJpeg_def sigPng_def getPngDimensions_def
      index_def toInt32_def fallback_def)

text \<open>
  Claim C1, amended. \<open>getImageDimensions\<close> returns on every buffer whose detected format
  is not \<open>avif\<close> (the PNG, JPEG, GIF and WebP readers are total and never fail). A read
  beyond the end of the buffer counts as the byte 0: the PNG, GIF and WebP readers give the
  same result on a buffer and on the buffer padded with zero bytes, so a PNG buffer of at most
  16 bytes and a GIF buffer of at most 6 bytes yield (0, 0). The fallback (1920, 1080) is
  returned for a WebP buffer of at most 12 bytes and for the format \<open>unknown\<close>.
\<close>

theorem readers_total:
  "(detectFormat data \<noteq> ''avif'' \<longrightarrow> (\<exists>d. getImageDimensions data = Some d)) \<and>
   getPngDimensions (data @ replicate n 0) = getPngDimensions data \<and>
   getGifDimensions (data @ replicate n 0) = getGifDimensions data \<and>
   getWebpDimensions (data @ replicate n 0) = getWebpDimensions data \<and>
   (length data \<le> 16 \<longrightarrow> getPngDimensions data = \<lparr> width = 0, height = 0 \<rparr>) \<and>
   (length data \<le> 6 \<longrightarrow> getGifDimensions data = \<lparr> width = 0, height = 0 \<rparr>) \<and>
   (length data \<le> 12 \<longrightarrow> getWebpDimensions data = \<lparr> width = 1920, height = 1080 \<rparr>) \<and>
   (detectFormat data = ''unknown'' \<longrightarrow>
      getImageDimensions data = Some \<lparr> width = 1920, height = 1080 \<rparr>)"
proof (intro conjI impI)
  assume "detectFormat data \<noteq> ''avif''"
  then show "\<exists>d. getImageDimensions data = Some d" by (rule getImageDimensions_returns)
next
  assume "detectFormat data = ''unknown''"
  then show "getImageDimensions data = Some \<lparr> width = 1920, height = 1080 \<rparr>"
    by (simp add: getImageDimensions_def)
qed (simp_all add: readers_pad readers_truncated [unfolded fallback_def])

theorem readers_total_witness:
  "(\<exists>d. getImageDimensions [0x89, 0x50, 0x4E, 0x47] = Some d) \<and>
   getPngDimensions [0x89, 0x50, 0x4E, 0x47] = \<lparr> width = 0, height = 0 \<rparr> \<and>
   getGifDimensions [] = \<lparr> width = 0, height = 0 \<rparr> \<and>
   getWebpDimensions [] = \<lparr> width = 1920, height = 1080 \<rparr> \<and>
   getImageDimensions [] = Some \<lparr> width = 1920, height = 1080 \<rparr>"
proof -
  have png: "detectFormat [0x89, 0x50, 0x4E, 0x47] \<noteq> ''avif''"
    by (simp add: detectFormat_def sigJpeg_def sigPng_def index_def)
  have unk: "detectFormat [] = ''unknown''"
    by (simp add: detectFormat_sigs sig_short)
  show ?thesis
    using readers_total [of "[0x89, 0x50, 0x4E, 0x47]" 0] readers_total [of "[]" 0] png unk
    by simp
qed

text \<open>
  Claim C2 holds for the JPEG scan (\<open>jpegScan_refines\<close>: it equals a function whose
  termination is proved) and fails for the AVIF walk. The box size is a signed 32-bit number,
  so a size field with the top bit set moves the cursor backwards. On \<open>avifLoop\<close> the
  walk goes from offset 0 to offset 16 and back to offset 0 for ever: \<open>getImageDimensions\<close>
  and \<open>getImageInfo\<close> never return.
\<close>

theorem avif_walk_never_returns:
  "detectFormat avifLoop = ''avif'' \<and> getAvifDimensions avifLoop = None \<and>
   getImageDimensions avifLoop = None \<and> getImageInfo avifLoop = None"
  by (simp add: getImageDimensions_def getImageInfo_def avifLoop_detect getAvifDimensions_def
      avifWalk_avifLoop)

text \<open>
  Claim C4 fails for the PNG reader (and in the same way for the \<open>ispe\<close> fields of the
  AVIF reader): the four bytes of a dimension are combined with 32-bit signed operations, so
  a first byte of \<open>0x80\<close> or more gives a negative number. The buffer below is a PNG header
  whose width field is FF FF FF FF.
\<close>

theorem png_negative_width:
  "detectFormat [0x89, 0x50, 0x4E, 0x47, 0x0D, 0x0A, 0x1A, 0x0A, 0x00, 0x00, 0x00, 0x0D,
                 0x49, 0x48, 0x44, 0x52, 0xFF, 0xFF, 0xFF, 0xFF, 0x00, 0x00, 0x00, 0x01] = ''png'' \<and>
   getImageDimensions [0x89, 0x50, 0x4E, 0x47, 0x0D, 0x0A, 0x1A, 0x0A, 0x00, 0x00, 0x00, 0x0D,
                       0x49, 0x48, 0x44, 0x52, 0xFF, 0xFF, 0xFF, 0xFF, 0x00, 0x00, 0x00, 0x01] =
     Some \<lparr> width = - 1, height = 1 \<rparr> \<and>
   getImageInfo [0x89, 0x50, 0x4E, 0x47, 0x0D, 0x0A, 0x1A, 0x0A, 0x00, 0x00, 0x00, 0x0D,
                 0x49, 0x48, 0x44, 0x52, 0xFF, 0xFF, 0xFF, 0xFF, 0x00, 0x00, 0x00, 0x01] =
     Some \<lparr> width = - 1, height = 1, format = ''png'', orientation = portrait \<rparr>"
  by (simp add: getImageInfo_def getImageDimensions_def detectFormat_def sigJpeg_def sigPng_def
      getPngDimensions_def index_def toInt32_def detectOrientation_def)

text \<open>
  Claim C7. \<open>getJpegDimensions\<close> is the scan of the specification started at offset 2
  (\<open>jpegScan_spec\<close>: one byte forward when the byte is not \<open>0xFF\<close>; at \<open>0xFF\<close> with a
  start-of-frame marker the height is the big-endian 16-bit number 5 bytes after the
  \<open>0xFF\<close> byte and the width the one 7 bytes after it; otherwise 2 bytes plus the
  big-endian 16-bit segment length forward),
  so it returns on every buffer. A buffer with no start-of-frame marker yields (1920, 1080).
  A buffer with an APP0 segment followed by an SOF0 segment with height 600 and width 800
  yields (800, 600).
\<close>

theorem getJpegDimensions_scan:
  "getJpegDimensions bytes = Some (jpegScan_spec bytes 2) \<and>
   (\<not> hasSofMarker bytes \<longrightarrow> getJpegDimensions bytes = Some \<lparr> width = 1920, height = 1080 \<rparr>) \<and>
   getJpegDimensions
     [0xFF, 0xD8,
      0xFF, 0xE0, 0x00, 0x10, 0x4A, 0x46, 0x49, 0x46, 0x00, 0x01, 0x01, 0x00, 0x00, 0x01, 0x00, 0x01,
      0x00, 0x00,
      0xFF, 0xC0, 0x00, 0x11, 0x08, 0x02, 0x58, 0x03, 0x20, 0x03, 0x01, 0x22, 0x00, 0x02, 0x11, 0x01,
      0x03, 0x11, 0x01,
      0xFF, 0xD9] = Some \<lparr> width = 800, height = 600 \<rparr>"
proof (intro conjI impI)
  show "getJpegDimensions bytes = Some (jpegScan_spec bytes 2)"
    by (simp add: getJpegDimensions_def jpegScan_refines)
next
  assume "\<not> hasSofMarker bytes"
  then have "jpegScan_spec bytes 2 = fallback" by (rule jpegScan_spec_no_sof) simp
  then show "getJpegDimensions bytes = Some \<lparr> width = 1920, height = 1080 \<rparr>"
    by (simp add: getJpegDimensions_def jpegScan_refines fallback_def)
next
  show "getJpegDimensions
     [0xFF, 0xD8,
      0xFF, 0xE0, 0x00, 0x10, 0x4A, 0x46, 0x49, 0x46, 0x00, 0x01, 0x01, 0x00, 0x00, 0x01, 0x00, 0x01,
      0x00, 0x00,
      0xFF, 0xC0, 0x00, 0x11, 0x08, 0x02, 0x58, 0x03, 0x20, 0x03, 0x01, 0x22, 0x00, 0x02, 0x11, 0x01,
      0x03, 0x11, 0x01,
      0xFF, 0xD9] = Some \<lparr> width = 800, height = 600 \<rparr>"
    by code_simp
qed

theorem getJpegDimensions_scan_witness:
  "\<not> hasSofMarker
     [0xFF, 0xD8,
      0xFF, 0xE0, 0x00, 0x10, 0x4A, 0x46, 0x49, 0x46, 0x00, 0x01, 0x01, 0x00, 0x00, 0x01, 0x00, 0x01,
      0x00, 0x00,
      0xFF, 0xD9] \<and>
   getJpegDimensions
     [0xFF, 0xD8,
      0xFF, 0xE0, 0x00, 0x10, 0x4A, 0x46, 0x49, 0x46, 0x00, 0x01, 0x01, 0x00, 0x00, 0x01, 0x00, 0x01,
      0x00, 0x00,
      0xFF, 0xD9] = Some \<lparr> width = 1920, height = 1080 \<rparr>"
proof -
  have no: "\<not> hasSofMarker
     [0xFF, 0xD8,
      0xFF, 0xE0, 0x00, 0x10, 0x4A, 0x46, 0x49, 0x46, 0x00, 0x01, 0x01, 0x00, 0x00, 0x01, 0x00, 0x01,
      0x00, 0x00,
      0xFF, 0xD9]"
    by code_simp
  then show ?thesis
    using getJpegDimensions_scan
      [of "[0xFF, 0xD8,
      0xFF, 0xE0, 0x00, 0x10, 0x4A, 0x46, 0x49, 0x46, 0x00, 0x01, 0x01, 0x00, 0x00, 0x01, 0x00, 0x01,
      0x00, 0x00,
      0xFF, 0xD9]"]
    by blast
qed

text \<open>
  Claim C8 holds on the two examples it names and fails where a 32-bit field has its top
  bit set. The walk follows the claim step by step (\<open>avifWalk_step\<close>), but every
  big-endian 32-bit number it reads is wrapped to a signed number: an \<open>ispe\<close> width of
  FF FF FF FF is returned as - 1 where the big-endian 32-bit number at box start + 12 is
  4294967295. The buffer below is the nested meta, iprp, ipco, ispe example with that
  width field. A box size with the top bit set moves the cursor backwards in the same way
  (\<open>avifWalk_avifLoop\<close>).
\<close>

theorem avif_ispe_negative_width:
  "getAvifDimensions
     [0x00, 0x00, 0x00, 0x10, 0x66, 0x74, 0x79, 0x70, 0x61, 0x76, 0x69, 0x66, 0x00, 0x00, 0x00, 0x00,
      0x00, 0x00, 0x00, 0x30, 0x6D, 0x65, 0x74, 0x61, 0x00, 0x00, 0x00, 0x00,
      0x00, 0x00, 0x00, 0x24, 0x69, 0x70, 0x72, 0x70,
      0x00, 0x00, 0x00, 0x1C, 0x69, 0x70, 0x63, 0x6F,
      0x00, 0x00, 0x00, 0x14, 0x69, 0x73, 0x70, 0x65, 0x00, 0x00, 0x00, 0x00,
      0xFF, 0xFF, 0xFF, 0xFF, 0x00, 0x00, 0x03, 0x20] = Some \<lparr> width = - 1, height = 800 \<rparr> \<and>
   be32u
     [0x00, 0x00, 0x00, 0x10, 0x66, 0x74, 0x79, 0x70, 0x61, 0x76, 0x69, 0x66, 0x00, 0x00, 0x00, 0x00,
      0x00, 0x00, 0x00, 0x30, 0x6D, 0x65, 0x74, 0x61, 0x00, 0x00, 0x00, 0x00,
      0x00, 0x00, 0x00, 0x24, 0x69, 0x70, 0x72, 0x70,
      0x00, 0x00, 0x00, 0x1C, 0x69, 0x70, 0x63, 0x6F,
      0x00, 0x00, 0x00, 0x14, 0x69, 0x73, 0x70, 0x65, 0x00, 0x00, 0x00, 0x00,
      0xFF, 0xFF, 0xFF, 0xFF, 0x00, 0x00, 0x03, 0x20] 56 = 4294967295"
proof
  show "getAvifDimensions
     [0x00, 0x00, 0x00, 0x10, 0x66, 0x74, 0x79, 0x70, 0x61, 0x76, 0x69, 0x66, 0x00, 0x00, 0x00, 0x00,
      0x00, 0x00, 0x00, 0x30, 0x6D, 0x65, 0x74, 0x61, 0x00, 0x00, 0x00, 0x00,
      0x00, 0x00, 0x00, 0x24, 0x69, 0x70, 0x72, 0x70,
      0x00, 0x00, 0x00, 0x1C, 0x69, 0x70, 0x63, 0x6F,
      0x00, 0x00, 0x00, 0x14, 0x69, 0x73, 0x70, 0x65, 0x00, 0x00, 0x00, 0x00,
      0xFF, 0xFF, 0xFF, 0xFF, 0x00, 0x00, 0x03, 0x20] = Some \<lparr> width = - 1, height = 800 \<rparr>"
    by code_simp
next
  show "be32u
     [0x00, 0x00, 0x00, 0x10, 0x66, 0x74, 0x79, 0x70, 0x61, 0x76, 0x69, 0x66, 0x00, 0x00, 0x00, 0x00,
      0x00, 0x00, 0x00, 0x30, 0x6D, 0x65, 0x74, 0x61, 0x00, 0x00, 0x00, 0x00,
      0x00, 0x00, 0x00, 0x24, 0x69, 0x70, 0x72, 0x70,
      0x00, 0x00, 0x00, 0x1C, 0x69, 0x70, 0x63, 0x6F,
      0x00, 0x00, 0x00, 0x14, 0x69, 0x73, 0x70, 0x65, 0x00, 0x00, 0x00, 0x00,
      0xFF, 0xFF, 0xFF, 0xFF, 0x00, 0x00, 0x03, 0x20] 56 = 4294967295"
    by (simp add: be32u_def byteOr0_def byteVal_def index_def)
qed


end
